theory Spec2Isabelle
  imports Main "HOL-Library.Sublist"
begin

unbundle bit_operations_syntax

section \<open>The directory hierarchy of tree.c\<close>

text \<open>
  A C string is modelled by the list of its bytes up to, and without, the terminating
  NUL; \<open>strlen\<close> is \<open>length\<close>, \<open>strcmp(a, b) == 0\<close> is \<open>a = b\<close>, and
  \<open>strncmp(a, b, strlen(b)) == 0\<close> is \<open>take (length b) a = b\<close>.

  \<open>struct tree\<close>: the field \<open>size\<close> is called \<open>size_bytes\<close> here; the
  sibling list \<open>sub\<close>, \<open>sub->next\<close>, \<open>sub->next->next\<close>, ... is the list \<open>sub\<close>,
  head first.
\<close>

datatype tree = Tree
  (name: string)
  (is_dir: bool)
  (offset: int)
  (size_bytes: int)
  (nsubdirs: int)
  (sub: "tree list")

text \<open>\<open>memchr(s, c, n)\<close>: the index of the first \<open>c\<close> among the first \<open>n\<close> bytes
  of \<open>s\<close>. Every call site has \<open>n \<le> strlen(s)\<close>, so the search stops at the end of
  the list.\<close>

fun memchr :: "string \<Rightarrow> char \<Rightarrow> nat \<Rightarrow> nat option" where
  "memchr s c 0 = None"
| "memchr [] c (Suc n) = None"
| "memchr (x # xs) c (Suc n) =
     (if x = c then Some 0 else map_option Suc (memchr xs c n))"

text \<open>
  \<open>tree_insert(root, path, length, offset, size)\<close>. The C function updates the nodes in
  place; the model returns the updated node. The \<open>while\<close> loop over the siblings stops
  at the first node whose name is the first component of the path:
  \<open>List.extract\<close> splits the sibling list at that node. After \<open>*pos = 0\<close> the
  string at \<open>path\<close> is \<open>take pos path\<close>, which \<open>strcmp\<close> compares and \<open>strdup\<close>
  copies; \<open>strndup(path, length)\<close> is \<open>take len path\<close>. The one caller passes
  \<open>strlen(path)\<close> for \<open>length\<close>.
\<close>

function tree_insert :: "tree \<Rightarrow> string \<Rightarrow> nat \<Rightarrow> int \<Rightarrow> int \<Rightarrow> tree" where
  "tree_insert root path len off sz =
    (if path = [] then root
     else case memchr path CHR ''/'' len of
       Some pos \<Rightarrow>
         (case List.extract (\<lambda>node. name node = take pos path) (sub root) of
            Some (before, node, after) \<Rightarrow>
              Tree (name root) (is_dir root) (offset root) (size_bytes root) (nsubdirs root)
                (before @ tree_insert node (drop (pos + 1) path) (len - (pos + 1)) off sz # after)
          | None \<Rightarrow>
              Tree (name root) (is_dir root) (offset root) (size_bytes root) (nsubdirs root + 1)
                (tree_insert (Tree (take pos path) True 0 0 0 [])
                   (drop (pos + 1) path) (len - (pos + 1)) off sz # sub root))
     | None \<Rightarrow>
         Tree (name root) (is_dir root) (offset root) (size_bytes root) (nsubdirs root)
           (Tree (take len path) False off sz 0 [] # sub root))"
  by pat_completeness auto
termination
  by (relation "measure (\<lambda>(root, path, len, off, sz). length path)") auto

text \<open>
  \<open>tree_find_entry(root, path)\<close>; \<open>find_in_sub\<close> is its \<open>while\<close> loop over the
  children, which returns the first hit.
\<close>

fun tree_find_entry :: "tree \<Rightarrow> string \<Rightarrow> tree option"
  and find_in_sub :: "tree list \<Rightarrow> string \<Rightarrow> tree option" where
  "tree_find_entry (Tree nm d off sz ns sb) path =
    (if path = nm then Some (Tree nm d off sz ns sb)
     else if take (length nm) path \<noteq> nm then None
     else (case drop (length nm) path of
             [] \<Rightarrow> None
           | c # next \<Rightarrow>
               if c \<noteq> CHR ''/'' then None
               else if next = [] then Some (Tree nm d off sz ns sb)
               else find_in_sub sb next))"
| "find_in_sub [] path = None"
| "find_in_sub (node # rest) path =
    (case tree_find_entry node path of
       Some ret \<Rightarrow> Some ret
     | None \<Rightarrow> find_in_sub rest path)"

definition tree_empty :: tree where
  "tree_empty = Tree [] True 0 0 0 []"


text \<open>A sequence of calls \<open>tree_insert(root, path, strlen(path), offset, size)\<close>, as
  the directory parser issues them: the paths with their offsets and sizes, first call
  first.\<close>

fun insert_all :: "tree \<Rightarrow> (string \<times> int \<times> int) list \<Rightarrow> tree" where
  "insert_all root [] = root"
| "insert_all root ((path, off, sz) # rest) =
     insert_all (tree_insert root path (length path) off sz) rest"

text \<open>The name of the file a path ends in: what follows its last separator.\<close>

definition last_component :: "string \<Rightarrow> string" where
  "last_component p = rev (takeWhile (\<lambda>c. c \<noteq> CHR ''/'') (rev p))"

text \<open>No node name holds a separator; every tree built by \<open>tree_insert\<close> is so.\<close>

fun wf_names :: "tree \<Rightarrow> bool" where
  "wf_names (Tree nm d off sz ns sb) = (CHR ''/'' \<notin> set nm \<and> (\<forall>c \<in> set sb. wf_names c))"

text \<open>
  The invariant of the data model: \<open>nsubdirs\<close> counts the children that are
  directories, and a node that is not a directory has no children. \<open>nsubdirs_ok\<close> is
  its first half alone.
\<close>

fun tree_invariant :: "tree \<Rightarrow> bool" where
  "tree_invariant (Tree nm d off sz ns sb) =
     (ns = int (length (filter is_dir sb)) \<and> (d \<or> sb = []) \<and> list_all tree_invariant sb)"

fun nsubdirs_ok :: "tree \<Rightarrow> bool" where
  "nsubdirs_ok (Tree nm d off sz ns sb) =
     (ns = int (length (filter is_dir sb)) \<and> list_all nsubdirs_ok sb)"

section \<open>The FUSE operations of tree.c\<close>

text \<open>
  The operations return 0 or the number of bytes on success and \<open>-errno\<close> on failure;
  the model returns \<open>Inr\<close> of the result or \<open>Inl\<close> of the error. They take the root
  of the tree as a pointer and only read it: the model has no tree in its results.
\<close>

datatype errno = ENOENT | EROFS | EISDIR | ENOTDIR

text \<open>The access modes of \<open>fcntl.h\<close> (Linux): the two low bits of the open flags.\<close>

definition O_RDONLY :: int where "O_RDONLY = 0"
definition O_WRONLY :: int where "O_WRONLY = 1"
definition O_RDWR :: int where "O_RDWR = 2"
definition O_ACCMODE :: int where "O_ACCMODE = 3"

text \<open>\<open>tree_open(path, fi, root)\<close>, with \<open>fi->flags\<close> for \<open>fi\<close>.\<close>

definition tree_open :: "string \<Rightarrow> int \<Rightarrow> tree \<Rightarrow> errno + unit" where
  "tree_open path flags root =
     (if flags AND O_WRONLY \<noteq> 0 then Inl EROFS
      else case tree_find_entry root path of
             None \<Rightarrow> Inl ENOENT
           | Some node \<Rightarrow> Inr ())"

text \<open>
  The descriptor of the image: the bytes of a regular file and the one seek position
  that all operations share. \<open>lseek(fd, off, SEEK_SET)\<close> fails on a negative offset
  and leaves the position where it was (no caller looks at its result);
  \<open>read(fd, buf, n)\<close> transfers the bytes that the file holds from the position on,
  at most \<open>n\<close>, and moves the position behind them. The model of \<open>read\<close> returns
  the bytes transferred; the result of the C function is their number.
\<close>

record fdesc =
  contents :: string
  fpos :: nat

definition lseek :: "fdesc \<Rightarrow> int \<Rightarrow> fdesc" where
  "lseek fd off = (if off < 0 then fd else fd\<lparr>fpos := nat off\<rparr>)"

definition read :: "fdesc \<Rightarrow> nat \<Rightarrow> string \<times> fdesc" where
  "read fd n =
     (let data = take n (drop (fpos fd) (contents fd))
      in (data, fd\<lparr>fpos := fpos fd + length data\<rparr>))"


definition tree_opendir :: "string \<Rightarrow> tree \<Rightarrow> errno + unit" where
  "tree_opendir path root =
     (case tree_find_entry root path of
        None \<Rightarrow> Inl ENOENT
      | Some node \<Rightarrow> if \<not> is_dir node then Inl ENOTDIR else Inr ())"


section \<open>The parser of xdvdfs.c\<close>

text \<open>
  Bytes are modelled by \<open>char\<close>, buffers by lists of them; \<open>of_char\<close> is the value of
  a byte.
\<close>

definition SECTOR_SIZE :: nat where "SECTOR_SIZE = 2048"
definition NAME_MAX_SIZE :: nat where "NAME_MAX_SIZE = 1024"
definition XDVD_SIGNATURE :: string where "XDVD_SIGNATURE = ''MICROSOFT*XBOX*MEDIA''"
definition XDVD_SIGNATURE_SIZE :: nat where "XDVD_SIGNATURE_SIZE = 0x14"

text \<open>
  The macros \<open>LE_16(&x[i])\<close> and \<open>LE_32(&x[i])\<close>. Every use lies inside its buffer:
  the sector buffer has 2048 bytes, and a directory record is read only after the test
  that its offset plus 13 is below the size of the buffer. The result of \<open>LE_32\<close> is
  stored in an \<open>unsigned int\<close>, the value below \<open>2 ^ 32\<close> that the four bytes make.
\<close>

definition LE_16 :: "string \<Rightarrow> nat \<Rightarrow> nat" where
  "LE_16 x i = push_bit 8 (of_char (x ! (i + 1))) OR of_char (x ! i)"

definition LE_32 :: "string \<Rightarrow> nat \<Rightarrow> nat" where
  "LE_32 x i =
     push_bit 24 (of_char (x ! (i + 3))) OR push_bit 16 (of_char (x ! (i + 2))) OR
     push_bit 8 (of_char (x ! (i + 1))) OR of_char (x ! i)"

text \<open>
  A buffer read as a C string ends before its first NUL: \<open>c_str\<close>. \<open>strncmp a b n\<close>
  says that \<open>strncmp(a, b, n)\<close> is 0; the end of a list reads as the terminating NUL.
\<close>

definition c_str :: "string \<Rightarrow> string" where
  "c_str s = takeWhile (\<lambda>c. c \<noteq> CHR 0x00) s"

fun strncmp :: "string \<Rightarrow> string \<Rightarrow> nat \<Rightarrow> bool" where
  "strncmp a b 0 = True"
| "strncmp [] [] (Suc n) = True"
| "strncmp [] (y # ys) (Suc n) = (y = CHR 0x00)"
| "strncmp (x # xs) [] (Suc n) = (x = CHR 0x00)"
| "strncmp (x # xs) (y # ys) (Suc n) = (x = y \<and> (x = CHR 0x00 \<or> strncmp xs ys n))"

text \<open>
  The parser copies names without a test of their length. Where the C code would
  write outside \<open>name_copy\<close> or read outside the directory buffer, its behaviour is
  undefined; the model stops there with a \<open>fault\<close>, which is not a value that the
  program can return or test.

  \<open>buf_store b i xs\<close> stores the bytes \<open>xs\<close> at index \<open>i\<close> of the array \<open>b\<close>.
  \<open>build_name_copy\<close> is the lines of \<open>xbfs_recurse_file_subtree\<close> that fill
  \<open>name_copy\<close>: \<open>strcpy\<close> of the prefix, \<open>memcpy\<close> of \<open>filename_size\<close> bytes from
  index \<open>src\<close> of the directory buffer, the terminator, and for a directory the
  separator and a terminator again. Its first argument is the content of the
  array before, of which nothing remains in the C string after.
\<close>

datatype fault = Out_Of_Bounds_Write | Out_Of_Bounds_Read

definition buf_store :: "string \<Rightarrow> nat \<Rightarrow> string \<Rightarrow> fault + string" where
  "buf_store b i xs =
     (if i + length xs \<le> length b then Inr (take i b @ xs @ drop (i + length xs) b)
      else Inl Out_Of_Bounds_Write)"

definition build_name_copy ::
    "string \<Rightarrow> string \<Rightarrow> string \<Rightarrow> nat \<Rightarrow> nat \<Rightarrow> bool \<Rightarrow> fault + string" where
  "build_name_copy name_copy name_buffer dir_entry src filename_size is_directory =
     (case buf_store name_copy 0 (c_str name_buffer @ [CHR 0x00]) of
        Inl ub \<Rightarrow> Inl ub
      | Inr b1 \<Rightarrow>
          if src + filename_size > length dir_entry then Inl Out_Of_Bounds_Read
          else
            (case buf_store b1 (length (c_str b1)) (take filename_size (drop src dir_entry)) of
               Inl ub \<Rightarrow> Inl ub
             | Inr b2 \<Rightarrow>
                 (case buf_store b2 (length (c_str b1) + filename_size) [CHR 0x00] of
                    Inl ub \<Rightarrow> Inl ub
                  | Inr b3 \<Rightarrow>
                      if is_directory then
                        (case buf_store b3 (length (c_str b1) + filename_size) ''/'' of
                           Inl ub \<Rightarrow> Inl ub
                         | Inr b4 \<Rightarrow>
                             buf_store b4 (length (c_str b1) + filename_size + 1) [CHR 0x00])
                      else Inr b3)))"

text \<open>
  \<open>xbfs_recurse_file_subtree\<close> and \<open>xbfs_recurse_directory\<close> call each other as
  deep as the pointers of the image lead them, without end on an image whose pointers
  form a cycle. The model counts the depth of the calls down from its first argument
  and returns \<open>None\<close> when it is used up; otherwise it returns the fault met or the
  state after: the tree below \<open>root\<close> and the descriptor. \<open>base\<close> is
  \<open>filesystem_base_offset\<close>. \<open>malloc\<close> is taken to succeed, and a read that is short
  ends the directory with the tree as it is. \<open>and_then\<close> runs one step after another.
\<close>

definition and_then ::
    "(fault + 'a) option \<Rightarrow> ('a \<Rightarrow> (fault + 'b) option) \<Rightarrow> (fault + 'b) option" where
  "and_then m f =
     (case m of None \<Rightarrow> None | Some (Inl ub) \<Rightarrow> Some (Inl ub) | Some (Inr x) \<Rightarrow> f x)"

function xbfs_recurse_file_subtree ::
    "nat \<Rightarrow> string \<Rightarrow> int \<Rightarrow> string \<Rightarrow> nat \<Rightarrow> nat \<Rightarrow> tree \<times> fdesc \<Rightarrow> (fault + tree \<times> fdesc) option"
  and xbfs_recurse_directory ::
    "nat \<Rightarrow> string \<Rightarrow> int \<Rightarrow> nat \<Rightarrow> nat \<Rightarrow> tree \<times> fdesc \<Rightarrow> (fault + tree \<times> fdesc) option"
  where
  "xbfs_recurse_file_subtree 0 name_buffer base dir_entry dir_entry_size filerecord_offset st = None"
| "xbfs_recurse_file_subtree (Suc fuel) name_buffer base dir_entry dir_entry_size filerecord_offset st =
    (if filerecord_offset + 0xD \<ge> dir_entry_size then Some (Inr st)
     else
       and_then
         (if LE_16 dir_entry filerecord_offset * 4 \<noteq> 0
          then xbfs_recurse_file_subtree fuel name_buffer base dir_entry dir_entry_size
                 (LE_16 dir_entry filerecord_offset * 4) st
          else Some (Inr st))
         (\<lambda>st1.
       and_then
         (case build_name_copy (replicate NAME_MAX_SIZE (CHR 0x00)) name_buffer dir_entry
                 (filerecord_offset + 0xE) (of_char (dir_entry ! (filerecord_offset + 0xD)))
                 ((of_char (dir_entry ! (filerecord_offset + 0xC)) :: nat) AND 0x10 \<noteq> 0) of
            Inl ub \<Rightarrow> Some (Inl ub)
          | Inr name_copy \<Rightarrow>
              if (of_char (dir_entry ! (filerecord_offset + 0xC)) :: nat) AND 0x10 \<noteq> 0 then
                xbfs_recurse_directory fuel (c_str name_copy) base
                  (LE_32 dir_entry (filerecord_offset + 4))
                  (LE_32 dir_entry (filerecord_offset + 8)) st1
              else
                Some (Inr (tree_insert (fst st1) (c_str name_copy) (length (c_str name_copy))
                             (base + int (LE_32 dir_entry (filerecord_offset + 4)) * int SECTOR_SIZE)
                             (int (LE_32 dir_entry (filerecord_offset + 8))),
                           snd st1)))
         (\<lambda>st2.
            if LE_16 dir_entry (filerecord_offset + 2) * 4 \<noteq> 0
            then xbfs_recurse_file_subtree fuel name_buffer base dir_entry dir_entry_size
                   (LE_16 dir_entry (filerecord_offset + 2) * 4) st2
            else Some (Inr st2))))"
| "xbfs_recurse_directory 0 name_buffer base dir_entry_sector dir_entry_size st = None"
| "xbfs_recurse_directory (Suc fuel) name_buffer base dir_entry_sector dir_entry_size st =
    (case read (lseek (snd st) (base + int dir_entry_sector * int SECTOR_SIZE)) dir_entry_size of
       (dir_entry, fd') \<Rightarrow>
         if length dir_entry \<noteq> dir_entry_size then Some (Inr (fst st, fd'))
         else xbfs_recurse_file_subtree fuel name_buffer base dir_entry dir_entry_size 0
                (fst st, fd'))"
  by pat_completeness auto
termination
  by (relation "measure (\<lambda>x. case x of Inl a \<Rightarrow> fst a | Inr b \<Rightarrow> fst b)") auto

text \<open>
  \<open>xbfs_init\<close>: the loop that scans the sectors for the signature, which ends when
  a read is short, and the whole function, which returns no context (\<open>Inr None\<close>)
  when the scan fails and otherwise the context with the tree built from the root
  directory.
\<close>

function xbfs_init_scan :: "fdesc \<Rightarrow> int \<Rightarrow> (int \<times> nat \<times> nat \<times> fdesc) option" where
  "xbfs_init_scan fd filesystem_base_offset =
     (case read fd SECTOR_SIZE of
        (sector_buffer, fd') \<Rightarrow>
          if length sector_buffer \<noteq> SECTOR_SIZE then None
          else if strncmp sector_buffer XDVD_SIGNATURE XDVD_SIGNATURE_SIZE then
            Some (filesystem_base_offset - 32 * int SECTOR_SIZE,
                  LE_32 sector_buffer 0x14, LE_32 sector_buffer 0x18, fd')
          else xbfs_init_scan fd' (filesystem_base_offset + int SECTOR_SIZE))"
  by pat_completeness auto
termination
  by (relation "measure (\<lambda>(fd, b). length (contents fd) - fpos fd)")
     (auto simp: read_def SECTOR_SIZE_def Let_def)

definition xbfs_init :: "nat \<Rightarrow> fdesc \<Rightarrow> (fault + (tree \<times> fdesc) option) option" where
  "xbfs_init fuel fd =
     (case xbfs_init_scan (lseek fd 0) 0 of
        None \<Rightarrow> Some (Inr None)
      | Some (filesystem_base_offset, root_directory_sector, root_directory_size, fd') \<Rightarrow>
          (case xbfs_recurse_directory fuel [] filesystem_base_offset
                  root_directory_sector root_directory_size (tree_empty, fd') of
             None \<Rightarrow> None
           | Some (Inl ub) \<Rightarrow> Some (Inl ub)
           | Some (Inr st) \<Rightarrow> Some (Inr (Some st))))"

section \<open>The image, in the words of the specification\<close>

text \<open>
  The \<open>k\<close>-th sector of an image, the little-endian values at a byte offset, and an
  image whose sector \<open>k\<close> is a volume descriptor with root sector 0x21 and root size
  0x800.
\<close>

definition sector_at :: "string \<Rightarrow> nat \<Rightarrow> string" where
  "sector_at img k = take SECTOR_SIZE (drop (k * SECTOR_SIZE) img)"

definition le32_at :: "string \<Rightarrow> nat \<Rightarrow> nat" where
  "le32_at img p = of_char (img ! p) + 256 * of_char (img ! (p + 1)) +
     65536 * of_char (img ! (p + 2)) + 16777216 * of_char (img ! (p + 3))"


definition descriptor_image :: "nat \<Rightarrow> string" where
  "descriptor_image k =
     replicate (k * 2048) (CHR 0x00) @ ''MICROSOFT*XBOX*MEDIA'' @
     [CHR 0x21, CHR 0x00, CHR 0x00, CHR 0x00, CHR 0x00, CHR 0x08, CHR 0x00, CHR 0x00] @
     replicate 2020 (CHR 0x00)"


text \<open>
  The parts of \<open>xbfs_recurse_file_subtree\<close>, named: the descent into a subtree, which
  a pointer 0 skips, and the block under \<open>// process file\<close>.
\<close>

definition subtree_at ::
    "nat \<Rightarrow> string \<Rightarrow> int \<Rightarrow> string \<Rightarrow> nat \<Rightarrow> nat \<Rightarrow> tree \<times> fdesc \<Rightarrow> (fault + tree \<times> fdesc) option" where
  "subtree_at fuel name_buffer base dir_entry dir_entry_size subtree_offset st =
     (if subtree_offset \<noteq> 0
      then xbfs_recurse_file_subtree fuel name_buffer base dir_entry dir_entry_size
             subtree_offset st
      else Some (Inr st))"

definition process_file ::
    "nat \<Rightarrow> string \<Rightarrow> int \<Rightarrow> string \<Rightarrow> nat \<Rightarrow> tree \<times> fdesc \<Rightarrow> (fault + tree \<times> fdesc) option" where
  "process_file fuel name_buffer base dir_entry filerecord_offset st1 =
     (case build_name_copy (replicate NAME_MAX_SIZE (CHR 0x00)) name_buffer dir_entry
             (filerecord_offset + 0xE) (of_char (dir_entry ! (filerecord_offset + 0xD)))
             ((of_char (dir_entry ! (filerecord_offset + 0xC)) :: nat) AND 0x10 \<noteq> 0) of
        Inl ub \<Rightarrow> Some (Inl ub)
      | Inr name_copy \<Rightarrow>
          if (of_char (dir_entry ! (filerecord_offset + 0xC)) :: nat) AND 0x10 \<noteq> 0 then
            xbfs_recurse_directory fuel (c_str name_copy) base
              (LE_32 dir_entry (filerecord_offset + 4))
              (LE_32 dir_entry (filerecord_offset + 8)) st1
          else
            Some (Inr (tree_insert (fst st1) (c_str name_copy) (length (c_str name_copy))
                         (base + int (LE_32 dir_entry (filerecord_offset + 4)) * int SECTOR_SIZE)
                         (int (LE_32 dir_entry (filerecord_offset + 8))),
                       snd st1)))"

section \<open>The directory records, in the words of the specification\<close>
















section \<open>Lookup after insertion\<close>


lemma memchr_None_iff: "memchr s c n = None \<longleftrightarrow> c \<notin> set (take n s)"
  by (induction s c n rule: memchr.induct) auto

lemma memchr_SomeD:
  "memchr s c n = Some i \<Longrightarrow> i < n \<and> i < length s \<and> s ! i = c \<and> c \<notin> set (take i s)"
  by (induction s c n arbitrary: i rule: memchr.induct) (auto split: if_splits)

lemma memchr_split:
  assumes "memchr s c n = Some i"
  shows "s = take i s @ c # drop (i + 1) s"
proof -
  from memchr_SomeD [OF assms] have "i < length s" "s ! i = c" by auto
  then show ?thesis using id_take_nth_drop [of i s] by simp
qed

lemma wf_names_sel: "wf_names t \<longleftrightarrow> CHR ''/'' \<notin> set (name t) \<and> (\<forall>c \<in> set (sub t). wf_names c)"
  by (cases t) simp

lemma tree_find_entry_sel:
  "tree_find_entry t path =
    (if path = name t then Some t
     else if take (length (name t)) path \<noteq> name t then None
     else (case drop (length (name t)) path of
             [] \<Rightarrow> None
           | c # next \<Rightarrow>
               if c \<noteq> CHR ''/'' then None
               else if next = [] then Some t
               else find_in_sub (sub t) next))"
  by (cases t) (auto split: list.splits)

lemma name_tree_insert [simp]: "name (tree_insert t p len off sz) = name t"
  by (subst tree_insert.simps) (auto split: option.splits)

lemma is_dir_tree_insert [simp]: "is_dir (tree_insert t p len off sz) = is_dir t"
  by (subst tree_insert.simps) (auto split: option.splits)

lemma find_in_sub_append:
  "find_in_sub (xs @ ys) p =
     (case find_in_sub xs p of Some r \<Rightarrow> Some r | None \<Rightarrow> find_in_sub ys p)"
  by (induction xs) (auto split: option.splits)

lemma find_in_sub_None_all:
  "\<forall>x \<in> set xs. tree_find_entry x p = None \<Longrightarrow> find_in_sub xs p = None"
  by (induction xs) auto

lemma tree_find_entry_other_name:
  assumes "CHR ''/'' \<notin> set (name t)" "CHR ''/'' \<notin> set c1" "name t \<noteq> c1"
  shows "tree_find_entry t (c1 @ CHR ''/'' # rest) = None"
proof -
  let ?p = "c1 @ CHR ''/'' # rest"
  have ne: "?p \<noteq> name t" using assms(1) by (metis in_set_conv_decomp)
  show ?thesis
  proof (cases "take (length (name t)) ?p = name t")
    case False
    with ne show ?thesis by (simp add: tree_find_entry_sel)
  next
    case True
    have le: "length (name t) \<le> length c1"
    proof (rule ccontr)
      assume "\<not> length (name t) \<le> length c1"
      then obtain k where k: "length (name t) - length c1 = Suc k"
        by (cases "length (name t) - length c1") auto
      have "name t = c1 @ take (length (name t) - length c1) (CHR ''/'' # rest)"
        using True k by (simp del: take_Suc_Cons)
      then have "name t = c1 @ CHR ''/'' # take k rest"
        by (simp add: k)
      then have "CHR ''/'' \<in> set (name t)"
        by (metis in_set_conv_decomp)
      with assms(1) show False by simp
    qed
    then have "name t = take (length (name t)) c1" using True by simp
    with assms(3) have lt: "length (name t) < length c1"
      using le by (metis le_neq_implies_less take_all order_refl)
    then have "drop (length (name t)) ?p = drop (length (name t)) c1 @ CHR ''/'' # rest"
      by simp
    moreover from lt obtain x xs where "drop (length (name t)) c1 = x # xs"
      by (cases "drop (length (name t)) c1") auto
    moreover from this have "x \<in> set c1" by (metis in_set_dropD list.set_intros(1))
    ultimately show ?thesis using ne True assms(2)
      by (auto simp: tree_find_entry_sel)
  qed
qed


declare tree_insert.simps [simp del]

lemma tree_insert_Nil [simp]: "tree_insert t [] len off sz = t"
  by (simp add: tree_insert.simps)

lemma tree_insert_file:
  "path \<noteq> [] \<Longrightarrow> memchr path CHR ''/'' len = None \<Longrightarrow>
   tree_insert t path len off sz =
     Tree (name t) (is_dir t) (offset t) (size_bytes t) (nsubdirs t)
       (Tree (take len path) False off sz 0 [] # sub t)"
  by (simp add: tree_insert.simps)

lemma tree_insert_old:
  "path \<noteq> [] \<Longrightarrow> memchr path CHR ''/'' len = Some pos \<Longrightarrow>
   List.extract (\<lambda>node. name node = take pos path) (sub t) = Some (before, node, after) \<Longrightarrow>
   tree_insert t path len off sz =
     Tree (name t) (is_dir t) (offset t) (size_bytes t) (nsubdirs t)
       (before @ tree_insert node (drop (pos + 1) path) (len - (pos + 1)) off sz # after)"
  by (simp add: tree_insert.simps)

lemma tree_insert_new:
  "path \<noteq> [] \<Longrightarrow> memchr path CHR ''/'' len = Some pos \<Longrightarrow>
   List.extract (\<lambda>node. name node = take pos path) (sub t) = None \<Longrightarrow>
   tree_insert t path len off sz =
     Tree (name t) (is_dir t) (offset t) (size_bytes t) (nsubdirs t + 1)
       (tree_insert (Tree (take pos path) True 0 0 0 [])
          (drop (pos + 1) path) (len - (pos + 1)) off sz # sub t)"
  by (simp add: tree_insert.simps)

lemma wf_names_tree_insert:
  "len = length path \<Longrightarrow> wf_names t \<Longrightarrow> wf_names (tree_insert t path len off sz)"
proof (induction t path len off sz rule: tree_insert.induct)
  case (1 root path len off sz)
  show ?case
  proof (cases "path = []")
    case True
    then show ?thesis using "1.prems" by simp
  next
    case ne: False
    show ?thesis
    proof (cases "memchr path CHR ''/'' len")
      case None
      then have "CHR ''/'' \<notin> set (take len path)" by (simp add: memchr_None_iff)
      then show ?thesis
        using "1.prems" ne None by (simp add: tree_insert_file wf_names_sel [of root])
    next
      case (Some pos)
      from memchr_SomeD [OF Some] have pos: "pos < length path" "CHR ''/'' \<notin> set (take pos path)"
        by auto
      have len': "len - (pos + 1) = length (drop (pos + 1) path)"
        using "1.prems"(1) by simp
      show ?thesis
      proof (cases "List.extract (\<lambda>node. name node = take pos path) (sub root)")
        case None
        have "wf_names (Tree (take pos path) True 0 0 0 [])" using pos by simp
        with "1.IH"(1) [OF ne Some None len']
        have "wf_names (tree_insert (Tree (take pos path) True 0 0 0 [])
                 (drop (pos + 1) path) (len - (pos + 1)) off sz)" .
        then show ?thesis
          using "1.prems"(2) by (simp add: tree_insert_new [OF ne Some None] wf_names_sel [of root])
      next
        case (Some r)
        then obtain before node after where r: "r = (before, node, after)" by (cases r) auto
        with Some have ex: "List.extract (\<lambda>node. name node = take pos path) (sub root)
                              = Some (before, node, after)" by simp
        then have sub: "sub root = before @ node # after" by (simp add: extract_Some_iff)
        with "1.prems"(2) have "wf_names node" by (simp add: wf_names_sel [of root])
        from "1.IH"(2) [OF ne \<open>memchr path CHR ''/'' len = Some pos\<close> ex refl refl len' this]
        have "wf_names (tree_insert node (drop (pos + 1) path) (len - (pos + 1)) off sz)" .
        then show ?thesis
          using "1.prems"(2) sub
          by (simp add: tree_insert_old [OF ne \<open>memchr path CHR ''/'' len = Some pos\<close> ex]
                wf_names_sel [of root])
      qed
    qed
  qed
qed


lemma last_component_plain:
  assumes "CHR ''/'' \<notin> set p"
  shows "last_component p = p"
proof -
  have "takeWhile (\<lambda>c. c \<noteq> CHR ''/'') (rev p) = rev p"
    using assms by auto
  then show ?thesis by (metis last_component_def rev_rev_ident)
qed

lemma last_component_slash:
  "last_component (a @ CHR ''/'' # b) = last_component b"
  by (simp add: last_component_def takeWhile_tail)

lemma tree_find_entry_descend:
  "rest \<noteq> [] \<Longrightarrow> tree_find_entry t (name t @ CHR ''/'' # rest) = find_in_sub (sub t) rest"
  by (simp add: tree_find_entry_sel)

lemma find_in_sub_skip:
  assumes "\<forall>b \<in> set before. tree_find_entry b p = None"
  shows "find_in_sub (before @ n # after) p =
           (case tree_find_entry n p of Some r \<Rightarrow> Some r | None \<Rightarrow> find_in_sub after p)"
  using find_in_sub_None_all [OF assms] by (simp add: find_in_sub_append)

lemma find_newest:
  "len = length path \<Longrightarrow> wf_names t \<Longrightarrow> path \<noteq> [] \<Longrightarrow> last path \<noteq> CHR ''/'' \<Longrightarrow>
   find_in_sub (sub (tree_insert t path len off sz)) path =
     Some (Tree (last_component path) False off sz 0 [])"
proof (induction t path len off sz rule: tree_insert.induct)
  case (1 root path len off sz)
  note ne = \<open>path \<noteq> []\<close>
  show ?case
  proof (cases "memchr path CHR ''/'' len")
    case None
    then have "CHR ''/'' \<notin> set path" using "1.prems"(1) by (simp add: memchr_None_iff)
    then show ?thesis
      unfolding tree_insert_file [OF ne None]
      using "1.prems"(1) by (simp add: last_component_plain)
  next
    case (Some pos)
    define c1 where "c1 = take pos path"
    define rest where "rest = drop (pos + 1) path"
    from memchr_SomeD [OF Some] have c1: "CHR ''/'' \<notin> set c1" by (simp add: c1_def)
    have path: "path = c1 @ CHR ''/'' # rest"
      using memchr_split [OF Some] by (simp add: c1_def rest_def)
    have rest_ne: "rest \<noteq> []" using "1.prems"(4) path by auto
    have last_rest: "last rest \<noteq> CHR ''/''" using "1.prems"(4) path rest_ne by simp
    have len': "len - (pos + 1) = length rest"
      using "1.prems"(1) by (simp add: rest_def)
    have lc: "last_component path = last_component rest"
      by (subst path) (rule last_component_slash)
    show ?thesis
    proof (cases "List.extract (\<lambda>node. name node = take pos path) (sub root)")
      case None
      let ?d = "Tree c1 True 0 0 0 []"
      have "wf_names ?d" using c1 by simp
      from "1.IH"(1) [OF ne Some None, folded rest_def c1_def, OF len' this rest_ne last_rest]
      have "find_in_sub (sub (tree_insert ?d rest (len - (pos + 1)) off sz)) rest =
              Some (Tree (last_component rest) False off sz 0 [])" .
      moreover have "tree_find_entry (tree_insert ?d rest (len - (pos + 1)) off sz) path =
              find_in_sub (sub (tree_insert ?d rest (len - (pos + 1)) off sz)) rest"
        using tree_find_entry_descend [OF rest_ne, of "tree_insert ?d rest (len - (pos + 1)) off sz"]
        by (simp add: path)
      ultimately show ?thesis
        unfolding tree_insert_new [OF ne Some None, folded rest_def c1_def]
        by (simp add: lc)
    next
      case (Some r)
      then obtain before node after where
        ex: "List.extract (\<lambda>node. name node = take pos path) (sub root) = Some (before, node, after)"
        by (cases r) auto
      then have sub: "sub root = before @ node # after" and nm: "name node = c1"
        and bf: "\<forall>b \<in> set before. name b \<noteq> c1"
        by (auto simp: extract_Some_iff c1_def)
      from "1.prems"(2) sub have wfn: "wf_names node" and wfb: "\<forall>b \<in> set before. wf_names b"
        by (auto simp: wf_names_sel [of root])
      have skip: "\<forall>b \<in> set before. tree_find_entry b path = None"
      proof
        fix b assume b: "b \<in> set before"
        with wfb have "CHR ''/'' \<notin> set (name b)" using wf_names_sel by blast
        with bf b c1 show "tree_find_entry b path = None"
          by (subst path) (rule tree_find_entry_other_name, auto)
      qed
      let ?n = "tree_insert node rest (len - (pos + 1)) off sz"
      from "1.IH"(2) [OF ne \<open>memchr path CHR ''/'' len = Some pos\<close> ex refl refl,
          folded rest_def, OF len' wfn rest_ne last_rest]
      have "find_in_sub (sub ?n) rest = Some (Tree (last_component rest) False off sz 0 [])" .
      moreover have "tree_find_entry ?n path = find_in_sub (sub ?n) rest"
        using tree_find_entry_descend [OF rest_ne, of ?n] by (simp add: path nm)
      ultimately show ?thesis
        unfolding tree_insert_old [OF ne \<open>memchr path CHR ''/'' len = Some pos\<close> ex, folded rest_def]
        by (simp add: find_in_sub_skip [OF skip] lc)
    qed
  qed
qed


lemma tree_find_entry_cong_sub:
  assumes "name t' = name t" "p \<noteq> name t" "p \<noteq> name t @ ''/''"
    and "\<And>nxt. p = name t @ CHR ''/'' # nxt \<Longrightarrow> nxt \<noteq> [] \<Longrightarrow>
           find_in_sub (sub t') nxt = find_in_sub (sub t) nxt"
  shows "tree_find_entry t' p = tree_find_entry t p"
proof (cases "take (length (name t)) p = name t")
  case False
  then show ?thesis using assms(1,2) by (simp add: tree_find_entry_sel)
next
  case True
  then have p: "p = name t @ drop (length (name t)) p"
    by (metis append_take_drop_id)
  show ?thesis
  proof (cases "drop (length (name t)) p")
    case Nil
    then show ?thesis using assms(1,2) True by (simp add: tree_find_entry_sel)
  next
    case (Cons c nxt)
    show ?thesis
    proof (cases "c = CHR ''/''")
      case False
      then show ?thesis using assms(1,2) True Cons by (simp add: tree_find_entry_sel)
    next
      case c: True
      with p Cons have p': "p = name t @ CHR ''/'' # nxt" by simp
      with assms(3) have "nxt \<noteq> []" by auto
      from assms(4) [OF p' this] show ?thesis
        using assms(1,2) True Cons c \<open>nxt \<noteq> []\<close> by (simp add: tree_find_entry_sel)
    qed
  qed
qed

lemma find_unchanged:
  "len = length q \<Longrightarrow> p \<noteq> [] \<Longrightarrow> last p \<noteq> CHR ''/'' \<Longrightarrow> p \<noteq> q \<Longrightarrow>
   \<not> prefix (p @ ''/'') q \<Longrightarrow>
   find_in_sub (sub (tree_insert t q len off sz)) p = find_in_sub (sub t) p"
proof (induction t q len off sz arbitrary: p rule: tree_insert.induct)
  case (1 root path len off sz)
  show ?case
  proof (cases "path = []")
    case True
    then show ?thesis by simp
  next
    case ne: False
    have no_slash: "p \<noteq> x @ ''/''" for x using "1.prems"(2,3) by auto
    show ?thesis
    proof (cases "memchr path CHR ''/'' len")
      case None
      let ?f = "Tree (take len path) False off sz 0 []"
      have "tree_find_entry ?f p = None"
        using "1.prems"(1,4) no_slash [of path]
        by (auto simp: neq_Nil_conv split: list.splits) (metis append_take_drop_id)+
      then show ?thesis
        unfolding tree_insert_file [OF ne None] by simp
    next
      case (Some pos)
      define c1 where "c1 = take pos path"
      define rest where "rest = drop (pos + 1) path"
      have path: "path = c1 @ CHR ''/'' # rest"
        using memchr_split [OF Some] by (simp add: c1_def rest_def)
      have len': "len - (pos + 1) = length rest"
        using "1.prems"(1) by (simp add: rest_def)
      have p_c1: "p \<noteq> c1" using "1.prems"(5) path by auto
      have sub_prems: "nxt \<noteq> rest \<and> \<not> prefix (nxt @ ''/'') rest \<and> last nxt \<noteq> CHR ''/''"
        if "p = c1 @ CHR ''/'' # nxt" "nxt \<noteq> []" for nxt
        using that "1.prems"(3,4,5) path by auto
      show ?thesis
      proof (cases "List.extract (\<lambda>node. name node = take pos path) (sub root)")
        case None
        let ?d = "Tree c1 True 0 0 0 []"
        let ?n = "tree_insert ?d rest (len - (pos + 1)) off sz"
        have "tree_find_entry ?n p = tree_find_entry ?d p"
        proof (rule tree_find_entry_cong_sub)
          show "name ?n = name ?d" by simp
          show "p \<noteq> name ?d" using p_c1 by simp
          show "p \<noteq> name ?d @ ''/''" using no_slash by simp
          fix nxt assume "p = name ?d @ CHR ''/'' # nxt" "nxt \<noteq> []"
          then have "p = c1 @ CHR ''/'' # nxt" by simp
          from sub_prems [OF this \<open>nxt \<noteq> []\<close>]
            "1.IH"(1) [OF ne Some None, folded rest_def c1_def, OF len' \<open>nxt \<noteq> []\<close>]
          show "find_in_sub (sub ?n) nxt = find_in_sub (sub ?d) nxt" by simp
        qed
        also have "\<dots> = None"
        proof -
          have "drop (length c1) p \<noteq> ''/''" if "take (length c1) p = c1"
            using that no_slash [of c1] by (metis append_take_drop_id)
          then show ?thesis
            using p_c1 by (auto split: list.splits)
        qed
        finally show ?thesis
          unfolding tree_insert_new [OF ne Some None, folded rest_def c1_def] by simp
      next
        case (Some r)
        then obtain before node after where
          ex: "List.extract (\<lambda>node. name node = take pos path) (sub root) = Some (before, node, after)"
          by (cases r) auto
        then have sub: "sub root = before @ node # after" and nm: "name node = c1"
          by (auto simp: extract_Some_iff c1_def)
        let ?n = "tree_insert node rest (len - (pos + 1)) off sz"
        have "tree_find_entry ?n p = tree_find_entry node p"
        proof (rule tree_find_entry_cong_sub)
          show "name ?n = name node" by simp
          show "p \<noteq> name node" using p_c1 nm by simp
          show "p \<noteq> name node @ ''/''" using no_slash by simp
          fix nxt assume "p = name node @ CHR ''/'' # nxt" "nxt \<noteq> []"
          then have "p = c1 @ CHR ''/'' # nxt" by (simp add: nm)
          from sub_prems [OF this \<open>nxt \<noteq> []\<close>]
            "1.IH"(2) [OF ne \<open>memchr path CHR ''/'' len = Some pos\<close> ex refl refl,
              folded rest_def, OF len' \<open>nxt \<noteq> []\<close>]
          show "find_in_sub (sub ?n) nxt = find_in_sub (sub node) nxt" by simp
        qed
        then show ?thesis
          unfolding tree_insert_old [OF ne \<open>memchr path CHR ''/'' len = Some pos\<close> ex, folded rest_def]
          by (simp add: sub find_in_sub_append split: option.splits)
      qed
    qed
  qed
qed


lemma insert_all_append:
  "insert_all t (xs @ ys) = insert_all (insert_all t xs) ys"
  by (induction t xs rule: insert_all.induct) auto

lemma name_insert_all [simp]: "name (insert_all t ins) = name t"
  by (induction t ins rule: insert_all.induct) auto

lemma wf_names_insert_all: "wf_names t \<Longrightarrow> wf_names (insert_all t ins)"
  by (induction t ins rule: insert_all.induct) (auto simp: wf_names_tree_insert)

lemma wf_names_tree_empty: "wf_names tree_empty"
  by (simp add: tree_empty_def)

lemma tree_find_entry_root:
  "name t = [] \<Longrightarrow> p \<noteq> [] \<Longrightarrow> tree_find_entry t (CHR ''/'' # p) = find_in_sub (sub t) p"
  using tree_find_entry_descend [of p t] by simp

lemma find_unchanged_all:
  "p \<noteq> [] \<Longrightarrow> last p \<noteq> CHR ''/'' \<Longrightarrow>
   \<forall>q \<in> fst ` set ins. p \<noteq> q \<and> \<not> prefix (p @ ''/'') q \<Longrightarrow>
   find_in_sub (sub (insert_all t ins)) p = find_in_sub (sub t) p"
  by (induction t ins rule: insert_all.induct) (auto simp: find_unchanged)

text \<open>
  C1, as amended. After a sequence of inserts with pairwise distinct paths, looking up
  \<open>/P\<close> for an inserted \<open>P\<close> returns the leaf node of \<open>P\<close>, with the name of its
  last component, \<open>is_dir\<close> false and exactly the inserted offset and size, provided
  that \<open>P\<close> is not empty, does not end in a separator, and that no inserted path
  uses \<open>P\<close> as a directory (none starts with \<open>P/\<close>).
\<close>

theorem insert_then_find_entry:
  assumes "(P, off, sz) \<in> set ins" and "distinct (map fst ins)"
    and "P \<noteq> []" and "last P \<noteq> CHR ''/''"
    and "\<forall>Q \<in> fst ` set ins. \<not> prefix (P @ ''/'') Q"
  shows "tree_find_entry (insert_all tree_empty ins) (CHR ''/'' # P) =
           Some (Tree (last_component P) False off sz 0 [])"
proof -
  from assms(1) obtain xs ys where ins: "ins = xs @ (P, off, sz) # ys"
    by (meson split_list)
  let ?t1 = "insert_all tree_empty xs"
  let ?t2 = "tree_insert ?t1 P (length P) off sz"
  have t: "insert_all tree_empty ins = insert_all ?t2 ys"
    by (simp add: ins insert_all_append)
  have "wf_names ?t1" by (simp add: wf_names_insert_all wf_names_tree_empty)
  from find_newest [OF refl this assms(3,4)]
  have new: "find_in_sub (sub ?t2) P = Some (Tree (last_component P) False off sz 0 [])" .
  have "P \<notin> fst ` set ys" using assms(2) by (auto simp: ins)
  moreover have "\<forall>q \<in> fst ` set ys. \<not> prefix (P @ ''/'') q"
    using assms(5) by (auto simp: ins)
  ultimately have "\<forall>q \<in> fst ` set ys. P \<noteq> q \<and> \<not> prefix (P @ ''/'') q" by auto
  from find_unchanged_all [OF assms(3,4) this]
  have "find_in_sub (sub (insert_all ?t2 ys)) P = find_in_sub (sub ?t2) P" .
  moreover have "name (insert_all ?t2 ys) = []" by (simp add: tree_empty_def)
  ultimately show ?thesis
    using new assms(3) by (simp add: t tree_find_entry_root)
qed

text \<open>The theorem at three inserts, looked up at \<open>/a/x\<close>.\<close>

theorem insert_then_find_entry_witness:
  "tree_find_entry
     (insert_all tree_empty [(''a/x'', 1, 2), (''b'', 3, 4), (''a/y'', 5, 6)]) ''/a/x'' =
   Some (Tree ''x'' False 1 2 0 [])"
proof -
  have "tree_find_entry
     (insert_all tree_empty [(''a/x'', 1, 2), (''b'', 3, 4), (''a/y'', 5, 6)]) (CHR ''/'' # ''a/x'') =
   Some (Tree (last_component ''a/x'') False 1 2 0 [])"
    by (rule insert_then_find_entry) (simp_all add: prefix_def)
  then show ?thesis by (simp add: last_component_def)
qed

text \<open>
  C1 as stated fails in three ways. Where the guard \<open>if (!path || !*path) return;\<close>
  applies: inserting the empty path inserts nothing, and \<open>/\<close> is the root directory;
  inserting \<open>a/\<close> creates the directory \<open>a\<close> and no leaf, and \<open>/a/\<close> is that
  directory. And where a path is used both as a file and as a directory: after
  \<open>a/x\<close>, \<open>a\<close> and \<open>a/x/y\<close>, three distinct paths, the loop of \<open>tree_insert\<close>
  has taken the file \<open>a\<close> for a directory and put a directory \<open>x\<close> below it, which
  the lookup of \<open>/a/x\<close> meets before the leaf inserted with (1, 2).
\<close>

theorem insert_then_find_entry_counterexample:
  "tree_find_entry (insert_all tree_empty [([], 5, 7)]) ''/'' = Some (Tree [] True 0 0 0 []) \<and>
   tree_find_entry (insert_all tree_empty [(''a/'', 5, 7)]) ''/a/'' = Some (Tree ''a'' True 0 0 0 []) \<and>
   tree_find_entry (insert_all tree_empty [(''a/x'', 1, 2), (''a'', 3, 4), (''a/x/y'', 5, 6)]) ''/a/x'' =
     Some (Tree ''x'' True 0 0 0 [Tree ''y'' False 5 6 0 []])"
  by code_simp






section \<open>The invariant of the hierarchy\<close>

lemma nsubdirs_ok_sel:
  "nsubdirs_ok t \<longleftrightarrow>
     nsubdirs t = int (length (filter is_dir (sub t))) \<and> list_all nsubdirs_ok (sub t)"
  by (cases t) simp

lemma nsubdirs_ok_tree_insert:
  "nsubdirs_ok t \<Longrightarrow> nsubdirs_ok (tree_insert t path len off sz)"
proof (induction t path len off sz rule: tree_insert.induct)
  case (1 root path len off sz)
  show ?case
  proof (cases "path = []")
    case True
    then show ?thesis using "1.prems" by simp
  next
    case ne: False
    show ?thesis
    proof (cases "memchr path CHR ''/'' len")
      case None
      show ?thesis
        unfolding tree_insert_file [OF ne None]
        using "1.prems" by (simp add: nsubdirs_ok_sel [of root])
    next
      case (Some pos)
      show ?thesis
      proof (cases "List.extract (\<lambda>node. name node = take pos path) (sub root)")
        case None
        have "nsubdirs_ok (Tree (take pos path) True 0 0 0 [])" by simp
        from "1.IH"(1) [OF ne Some None this]
        show ?thesis
          unfolding tree_insert_new [OF ne Some None]
          using "1.prems" by (simp add: nsubdirs_ok_sel [of root])
      next
        case (Some r)
        then obtain before node after where
          ex: "List.extract (\<lambda>node. name node = take pos path) (sub root) = Some (before, node, after)"
          by (cases r) auto
        then have sub: "sub root = before @ node # after"
          by (simp add: extract_Some_iff)
        with "1.prems" have "nsubdirs_ok node" by (simp add: nsubdirs_ok_sel [of root])
        from "1.IH"(2) [OF ne \<open>memchr path CHR ''/'' len = Some pos\<close> ex refl refl this]
        show ?thesis
          unfolding tree_insert_old [OF ne \<open>memchr path CHR ''/'' len = Some pos\<close> ex]
          using "1.prems" sub by (simp add: nsubdirs_ok_sel [of root])
      qed
    qed
  qed
qed

lemma nsubdirs_ok_insert_all: "nsubdirs_ok (insert_all tree_empty ins)"
proof -
  have "nsubdirs_ok t \<Longrightarrow> nsubdirs_ok (insert_all t ins)" for t
    by (induction t ins rule: insert_all.induct) (auto simp: nsubdirs_ok_tree_insert)
  then show ?thesis by (simp add: tree_empty_def)
qed

text \<open>
  C6. The empty tree and the tree holding the file \<open>a\<close> satisfy the invariant of the
  data model; inserting \<open>a/b\<close> next gives the file node \<open>a\<close> a child, and the
  invariant is lost: a node that is not a directory has a child. (The count of
  subdirectories stays right after every insert, \<open>nsubdirs_ok_insert_all\<close>.)
\<close>

theorem tree_invariant_broken_by_insert:
  "tree_invariant tree_empty \<and>
   tree_invariant (tree_insert tree_empty ''a'' 1 10 20) \<and>
   \<not> tree_invariant (tree_insert (tree_insert tree_empty ''a'' 1 10 20) ''a/b'' 3 30 40)"
  by code_simp

text \<open>
  C9. A root holding the file \<open>a\<close> and asked to insert \<open>a/b\<close>: the loop over the
  children compares names only, so the file node \<open>a\<close> is taken for the directory of
  that name; \<open>b\<close> becomes its child, no directory is created and \<open>nsubdirs\<close> of the
  root stays 0.
\<close>

theorem tree_insert_descends_into_file:
  "tree_insert (Tree [] True 0 0 0 [Tree ''a'' False 10 20 0 []]) ''a/b'' 3 30 40 =
     Tree [] True 0 0 0 [Tree ''a'' False 10 20 0 [Tree ''b'' False 30 40 0 []]]"
  by code_simp


section \<open>Opening and reading\<close>

lemma and_accmode_wronly:
  assumes "flags AND O_ACCMODE = O_RDONLY"
  shows "flags AND O_WRONLY = 0"
proof -
  have "flags AND O_WRONLY = (flags AND O_ACCMODE) AND O_WRONLY"
    by (simp add: O_ACCMODE_def O_WRONLY_def and.assoc)
  then show ?thesis using assms by (simp add: O_RDONLY_def)
qed

text \<open>
  C7, as amended. A request whose flags have the bit \<open>O_WRONLY\<close> set fails with
  \<open>EROFS\<close>, whether the path exists or not; a request for reading only fails with
  \<open>ENOENT\<close> when the path is absent and succeeds when it is present. \<open>tree_open\<close>
  returns a status only: it reads the tree and creates no state.
\<close>

theorem tree_open_access:
  "(flags AND O_WRONLY \<noteq> 0 \<longrightarrow> tree_open path flags root = Inl EROFS) \<and>
   (flags AND O_ACCMODE = O_RDONLY \<longrightarrow>
      tree_open path flags root =
        (case tree_find_entry root path of None \<Rightarrow> Inl ENOENT | Some node \<Rightarrow> Inr ()))"
  using and_accmode_wronly [of flags] by (simp add: tree_open_def)

text \<open>The theorem at a tree holding the file \<open>f\<close>: writing, reading, and a
  missing path.\<close>

theorem tree_open_access_witness:
  "tree_open ''/f'' O_WRONLY (Tree [] True 0 0 0 [Tree ''f'' False 2 5 0 []]) = Inl EROFS \<and>
   tree_open ''/f'' O_RDONLY (Tree [] True 0 0 0 [Tree ''f'' False 2 5 0 []]) = Inr () \<and>
   tree_open ''/g'' O_RDONLY (Tree [] True 0 0 0 [Tree ''f'' False 2 5 0 []]) = Inl ENOENT"
  using tree_open_access [of O_WRONLY "''/f''" "Tree [] True 0 0 0 [Tree ''f'' False 2 5 0 []]"]
    tree_open_access [of O_RDONLY "''/f''" "Tree [] True 0 0 0 [Tree ''f'' False 2 5 0 []]"]
    tree_open_access [of O_RDONLY "''/g''" "Tree [] True 0 0 0 [Tree ''f'' False 2 5 0 []]"]
  by (simp add: O_WRONLY_def O_RDONLY_def O_ACCMODE_def)

text \<open>
  C7 as stated fails twice. The flags are tested before the lookup, so an absent path
  opened for writing fails with \<open>EROFS\<close>, not with \<open>ENOENT\<close>. And the test is
  \<open>fi->flags & O_WRONLY\<close>, which the access mode \<open>O_RDWR\<close> (2) passes: a present
  file opened read-write is opened with success.
\<close>

theorem tree_open_counterexample:
  "tree_find_entry tree_empty ''/g'' = None \<and>
   tree_open ''/g'' O_WRONLY tree_empty = Inl EROFS \<and>
   tree_find_entry (Tree [] True 0 0 0 [Tree ''f'' False 2 5 0 []]) ''/f'' =
     Some (Tree ''f'' False 2 5 0 []) \<and>
   tree_open ''/f'' O_RDWR (Tree [] True 0 0 0 [Tree ''f'' False 2 5 0 []]) = Inr ()"
  by (simp add: tree_open_def tree_empty_def O_WRONLY_def O_RDWR_def)





section \<open>The signature scan\<close>

lemma push_bit_or_small:
  fixes a b :: nat
  assumes "b < 2 ^ n"
  shows "push_bit n a OR b = a * 2 ^ n + b"
proof -
  have "take_bit n b = b" using assms by (simp add: take_bit_nat_eq_self)
  then have "\<not> bit (push_bit n a) m \<or> \<not> bit b m" for m
    by (metis bit_push_bit_iff bit_take_bit_iff not_le)
  from disjunctive_add [of "push_bit n a" b, OF this]
  show ?thesis by (simp add: push_bit_eq_mult)
qed

lemma of_char_lt: "(of_char c :: nat) < 256"
  by simp


lemma LE_32_arith:
  "LE_32 x i = of_char (x ! i) + 256 * of_char (x ! (i + 1)) +
     65536 * of_char (x ! (i + 2)) + 16777216 * of_char (x ! (i + 3))"
proof -
  let ?b0 = "of_char (x ! i) :: nat" and ?b1 = "of_char (x ! (i + 1)) :: nat"
    and ?b2 = "of_char (x ! (i + 2)) :: nat" and ?b3 = "of_char (x ! (i + 3)) :: nat"
  have b: "?b0 < 256" "?b1 < 256" "?b2 < 256" by (rule of_char_lt)+
  have "LE_32 x i = push_bit 8 (push_bit 8 (push_bit 8 ?b3 OR ?b2) OR ?b1) OR ?b0"
    by (simp add: LE_32_def or.assoc)
  also have "\<dots> = ((?b3 * 2 ^ 8 + ?b2) * 2 ^ 8 + ?b1) * 2 ^ 8 + ?b0"
    using b by (simp add: push_bit_or_small)
  finally show ?thesis by simp
qed

lemma LE_32_bound: "LE_32 x i < 2 ^ 32"
proof -
  have "(of_char (x ! i) :: nat) < 256" "(of_char (x ! (i + 1)) :: nat) < 256"
    "(of_char (x ! (i + 2)) :: nat) < 256" "(of_char (x ! (i + 3)) :: nat) < 256"
    by (rule of_char_lt)+
  moreover have "(2::nat) ^ 32 = 4294967296" by simp
  ultimately show ?thesis unfolding LE_32_arith by linarith
qed

lemma strncmp_take:
  "CHR 0x00 \<notin> set b \<Longrightarrow> length b = n \<Longrightarrow> strncmp a b n \<longleftrightarrow> take n a = b"
proof (induction b arbitrary: a n)
  case Nil
  then show ?case by simp
next
  case (Cons y ys)
  then obtain m where n: "n = Suc m" by (cases n) auto
  show ?case
  proof (cases a)
    case Nil
    then show ?thesis using Cons.prems n by auto
  next
    case (Cons x xs)
    then show ?thesis using Cons.prems Cons.IH [of m xs] n by auto
  qed
qed

lemma signature_match:
  "strncmp sector_buffer XDVD_SIGNATURE XDVD_SIGNATURE_SIZE \<longleftrightarrow>
     take 20 sector_buffer = XDVD_SIGNATURE"
  using strncmp_take [of XDVD_SIGNATURE 20 sector_buffer]
  by (simp add: XDVD_SIGNATURE_def XDVD_SIGNATURE_SIZE_def)

lemma xbfs_init_scan_short:
  assumes "length (contents fd) < fpos fd + SECTOR_SIZE"
  shows "xbfs_init_scan fd b = None"
proof -
  have "length (fst (read fd SECTOR_SIZE)) \<noteq> SECTOR_SIZE"
    using assms by (auto simp: read_def Let_def SECTOR_SIZE_def)
  then show ?thesis
    by (subst xbfs_init_scan.simps) (simp add: case_prod_beta)
qed

lemma xbfs_init_scan_step:
  assumes "fpos fd = j * SECTOR_SIZE" "(j + 1) * SECTOR_SIZE \<le> length (contents fd)"
  shows "xbfs_init_scan fd b =
    (if take 20 (sector_at (contents fd) j) = XDVD_SIGNATURE then
       Some (b - 32 * int SECTOR_SIZE, LE_32 (sector_at (contents fd) j) 0x14,
             LE_32 (sector_at (contents fd) j) 0x18, fd\<lparr>fpos := (j + 1) * SECTOR_SIZE\<rparr>)
     else xbfs_init_scan (fd\<lparr>fpos := (j + 1) * SECTOR_SIZE\<rparr>) (b + int SECTOR_SIZE))"
proof -
  have len: "length (sector_at (contents fd) j) = SECTOR_SIZE"
    using assms(2) by (simp add: sector_at_def)
  have rd: "read fd SECTOR_SIZE = (sector_at (contents fd) j, fd\<lparr>fpos := (j + 1) * SECTOR_SIZE\<rparr>)"
    using assms len by (simp add: read_def sector_at_def Let_def)
  show ?thesis
    by (subst xbfs_init_scan.simps) (simp add: rd len signature_match)
qed

declare xbfs_init_scan.simps [simp del]

lemma sector_at_nth:
  "(k + 1) * SECTOR_SIZE \<le> length img \<Longrightarrow> i < SECTOR_SIZE \<Longrightarrow>
   sector_at img k ! i = img ! (k * SECTOR_SIZE + i)"
  by (simp add: sector_at_def)

lemma LE_32_sector_at:
  assumes "(k + 1) * SECTOR_SIZE \<le> length img" "i + 3 < SECTOR_SIZE"
  shows "LE_32 (sector_at img k) i = le32_at img (k * SECTOR_SIZE + i)"
  using assms by (simp add: LE_32_arith le32_at_def sector_at_nth add.assoc)

lemma take_sector_at: "n \<le> SECTOR_SIZE \<Longrightarrow> take n (sector_at img k) = take n (drop (k * SECTOR_SIZE) img)"
  by (simp add: sector_at_def min_def)

lemma scan_finds:
  assumes "(k + 1) * SECTOR_SIZE \<le> length (contents fd)"
    and "take 20 (sector_at (contents fd) k) = XDVD_SIGNATURE"
    and "\<forall>i. j \<le> i \<and> i < k \<longrightarrow> take 20 (sector_at (contents fd) i) \<noteq> XDVD_SIGNATURE"
    and "j \<le> k" and "fpos fd = j * SECTOR_SIZE"
  shows "xbfs_init_scan fd b =
    Some (b + int ((k - j) * SECTOR_SIZE) - 32 * int SECTOR_SIZE,
          LE_32 (sector_at (contents fd) k) 0x14, LE_32 (sector_at (contents fd) k) 0x18,
          fd\<lparr>fpos := (k + 1) * SECTOR_SIZE\<rparr>)"
  using assms
proof (induction "k - j" arbitrary: j fd b)
  case 0
  then have "j = k" by simp
  with "0.prems" show ?case
    by (simp add: xbfs_init_scan_step [of fd k b])
next
  case (Suc d)
  then have jk: "j < k" by simp
  then have "(j + 1) * SECTOR_SIZE \<le> (k + 1) * SECTOR_SIZE"
    by (intro mult_le_mono1) simp
  then have full: "(j + 1) * SECTOR_SIZE \<le> length (contents fd)"
    using Suc.prems(1) by (rule le_trans)
  have nomatch: "take 20 (sector_at (contents fd) j) \<noteq> XDVD_SIGNATURE"
    using Suc.prems(3) jk by simp
  let ?fd = "fd\<lparr>fpos := (j + 1) * SECTOR_SIZE\<rparr>"
  have "xbfs_init_scan ?fd (b + int SECTOR_SIZE) =
    Some (b + int SECTOR_SIZE + int ((k - (j + 1)) * SECTOR_SIZE) - 32 * int SECTOR_SIZE,
          LE_32 (sector_at (contents ?fd) k) 0x14, LE_32 (sector_at (contents ?fd) k) 0x18,
          ?fd\<lparr>fpos := (k + 1) * SECTOR_SIZE\<rparr>)"
  proof (rule Suc.hyps(1))
    show "d = k - (j + 1)" using Suc.hyps(2) by simp
    show "(k + 1) * SECTOR_SIZE \<le> length (contents ?fd)" using Suc.prems(1) by simp
    show "take 20 (sector_at (contents ?fd) k) = XDVD_SIGNATURE" using Suc.prems(2) by simp
    show "\<forall>i. j + 1 \<le> i \<and> i < k \<longrightarrow> take 20 (sector_at (contents ?fd) i) \<noteq> XDVD_SIGNATURE"
      using Suc.prems(3) by simp
    show "j + 1 \<le> k" using jk by simp
    show "fpos ?fd = (j + 1) * SECTOR_SIZE" by simp
  qed
  moreover have "int SECTOR_SIZE + int ((k - (j + 1)) * SECTOR_SIZE) = int ((k - j) * SECTOR_SIZE)"
  proof -
    have "k - j = Suc (k - (j + 1))" using jk by simp
    then show ?thesis by simp
  qed
  ultimately show ?case
    using nomatch by (simp add: xbfs_init_scan_step [OF Suc.prems(5) full])
qed

lemma scan_none:
  assumes "\<forall>k. (k + 1) * SECTOR_SIZE \<le> length (contents fd) \<longrightarrow>
             take 20 (sector_at (contents fd) k) \<noteq> XDVD_SIGNATURE"
    and "fpos fd = j * SECTOR_SIZE"
  shows "xbfs_init_scan fd b = None"
  using assms
proof (induction "length (contents fd) - fpos fd" arbitrary: j fd b rule: less_induct)
  case less
  show ?case
  proof (cases "(j + 1) * SECTOR_SIZE \<le> length (contents fd)")
    case False
    then show ?thesis using less.prems(2) by (intro xbfs_init_scan_short) simp
  next
    case True
    let ?fd = "fd\<lparr>fpos := (j + 1) * SECTOR_SIZE\<rparr>"
    have "xbfs_init_scan ?fd (b + int SECTOR_SIZE) = None"
    proof (rule less.hyps)
      show "length (contents ?fd) - fpos ?fd < length (contents fd) - fpos fd"
        using True less.prems(2) by (simp add: SECTOR_SIZE_def)
      show "\<forall>k. (k + 1) * SECTOR_SIZE \<le> length (contents ?fd) \<longrightarrow>
             take 20 (sector_at (contents ?fd) k) \<noteq> XDVD_SIGNATURE"
        using less.prems(1) by simp
      show "fpos ?fd = (j + 1) * SECTOR_SIZE" by simp
    qed
    then show ?thesis
      using less.prems(1) True by (simp add: xbfs_init_scan_step [OF less.prems(2) True])
  qed
qed

text \<open>
  C3. If sector \<open>k\<close> is the first whole 2048-byte sector of the image that starts
  with the 20 bytes of the signature, the scan ends there with the base offset
  \<open>k * 2048 - 32 * 2048\<close>, the root sector and the root size being the 32-bit
  little-endian values at the bytes 0x14 and 0x18 of that sector. If no whole sector
  starts with the signature, the scan fails and \<open>xbfs_init\<close> returns no context.
\<close>

theorem signature_scan:
  "((k + 1) * 2048 \<le> length (contents fd) \<and>
    take 20 (drop (k * 2048) (contents fd)) = ''MICROSOFT*XBOX*MEDIA'' \<and>
    (\<forall>j < k. take 20 (drop (j * 2048) (contents fd)) \<noteq> ''MICROSOFT*XBOX*MEDIA'') \<longrightarrow>
      xbfs_init_scan (lseek fd 0) 0 =
        Some (int (k * 2048) - 32 * 2048,
              le32_at (contents fd) (k * 2048 + 0x14),
              le32_at (contents fd) (k * 2048 + 0x18),
              fd\<lparr>fpos := (k + 1) * 2048\<rparr>)) \<and>
   ((\<forall>j. (j + 1) * 2048 \<le> length (contents fd) \<longrightarrow>
        take 20 (drop (j * 2048) (contents fd)) \<noteq> ''MICROSOFT*XBOX*MEDIA'') \<longrightarrow>
      xbfs_init_scan (lseek fd 0) 0 = None \<and> xbfs_init fuel fd = Some (Inr None))"
proof (intro conjI impI)
  let ?fd = "lseek fd 0"
  have fd0: "?fd = fd\<lparr>fpos := 0\<rparr>" by (simp add: lseek_def)
  assume h: "(k + 1) * 2048 \<le> length (contents fd) \<and>
    take 20 (drop (k * 2048) (contents fd)) = ''MICROSOFT*XBOX*MEDIA'' \<and>
    (\<forall>j < k. take 20 (drop (j * 2048) (contents fd)) \<noteq> ''MICROSOFT*XBOX*MEDIA'')"
  have "xbfs_init_scan ?fd 0 =
    Some (0 + int ((k - 0) * SECTOR_SIZE) - 32 * int SECTOR_SIZE,
          LE_32 (sector_at (contents ?fd) k) 0x14, LE_32 (sector_at (contents ?fd) k) 0x18,
          ?fd\<lparr>fpos := (k + 1) * SECTOR_SIZE\<rparr>)"
  proof (rule scan_finds)
    show "(k + 1) * SECTOR_SIZE \<le> length (contents ?fd)"
      using h by (simp add: fd0 SECTOR_SIZE_def)
    show "take 20 (sector_at (contents ?fd) k) = XDVD_SIGNATURE"
      using h by (simp add: fd0 take_sector_at SECTOR_SIZE_def XDVD_SIGNATURE_def)
    show "\<forall>i. 0 \<le> i \<and> i < k \<longrightarrow> take 20 (sector_at (contents ?fd) i) \<noteq> XDVD_SIGNATURE"
      using h by (simp add: fd0 take_sector_at SECTOR_SIZE_def XDVD_SIGNATURE_def)
    show "0 \<le> k" by simp
    show "fpos ?fd = 0 * SECTOR_SIZE" by (simp add: fd0)
  qed
  moreover have "LE_32 (sector_at (contents ?fd) k) i = le32_at (contents fd) (k * 2048 + i)"
    if "i + 3 < 2048" for i
    using LE_32_sector_at [of k "contents fd" i] h that by (simp add: fd0 SECTOR_SIZE_def)
  ultimately show "xbfs_init_scan ?fd 0 =
        Some (int (k * 2048) - 32 * 2048,
              le32_at (contents fd) (k * 2048 + 0x14),
              le32_at (contents fd) (k * 2048 + 0x18),
              fd\<lparr>fpos := (k + 1) * 2048\<rparr>)"
    by (simp add: fd0 SECTOR_SIZE_def)
next
  let ?fd = "lseek fd 0"
  have fd0: "?fd = fd\<lparr>fpos := 0\<rparr>" by (simp add: lseek_def)
  assume h: "\<forall>j. (j + 1) * 2048 \<le> length (contents fd) \<longrightarrow>
        take 20 (drop (j * 2048) (contents fd)) \<noteq> ''MICROSOFT*XBOX*MEDIA''"
  show none: "xbfs_init_scan ?fd 0 = None"
  proof (rule scan_none [where j = 0])
    show "\<forall>k. (k + 1) * SECTOR_SIZE \<le> length (contents ?fd) \<longrightarrow>
             take 20 (sector_at (contents ?fd) k) \<noteq> XDVD_SIGNATURE"
      using h by (simp add: fd0 take_sector_at SECTOR_SIZE_def XDVD_SIGNATURE_def)
    show "fpos ?fd = 0 * SECTOR_SIZE" by (simp add: fd0)
  qed
  show "xbfs_init fuel fd = Some (Inr None)"
    by (simp add: xbfs_init_def none)
qed


text \<open>The theorem at an image with the signature in sector 40, where the base offset
  is \<open>(40 - 32) * 2048\<close>, and at an image of 5000 bytes without it.\<close>

theorem signature_scan_witness:
  "xbfs_init_scan (lseek \<lparr>contents = descriptor_image 40, fpos = 7\<rparr> 0) 0 =
     Some ((40 - 32) * 2048, 33, 2048, \<lparr>contents = descriptor_image 40, fpos = 41 * 2048\<rparr>) \<and>
   xbfs_init_scan (lseek \<lparr>contents = replicate 5000 (CHR ''M''), fpos = 7\<rparr> 0) 0 = None"
proof -
  let ?img = "descriptor_image 40"
  let ?fd = "\<lparr>contents = ?img, fpos = 7\<rparr>"
  have len: "length ?img = 41 * 2048" by (simp add: descriptor_image_def)
  have sig: "take 20 (drop (40 * 2048) ?img) = ''MICROSOFT*XBOX*MEDIA''"
    by (simp add: descriptor_image_def)
  have before: "take 20 (drop (j * 2048) ?img) \<noteq> ''MICROSOFT*XBOX*MEDIA''" if "j < 40" for j
  proof
    assume eq: "take 20 (drop (j * 2048) ?img) = ''MICROSOFT*XBOX*MEDIA''"
    from that have lt: "j * 2048 < 40 * 2048" by simp
    then have "take 20 (drop (j * 2048) ?img) ! 0 = ?img ! (j * 2048)"
      using len by simp
    also have "\<dots> = CHR 0x00"
      using lt by (simp add: descriptor_image_def nth_append)
    finally show False by (simp add: eq)
  qed
  have v1: "le32_at ?img 81940 = 33"
    by (simp add: le32_at_def descriptor_image_def nth_append)
  have v2: "le32_at ?img 81944 = 2048"
    by (simp add: le32_at_def descriptor_image_def nth_append)
  have "xbfs_init_scan (lseek ?fd 0) 0 =
        Some (int (40 * 2048) - 32 * 2048,
              le32_at (contents ?fd) (40 * 2048 + 0x14),
              le32_at (contents ?fd) (40 * 2048 + 0x18),
              ?fd\<lparr>fpos := (40 + 1) * 2048\<rparr>)"
    using signature_scan [of 40 ?fd, THEN conjunct1] len sig before by simp
  moreover have "xbfs_init_scan (lseek \<lparr>contents = replicate 5000 (CHR ''M''), fpos = 7\<rparr> 0) 0 = None"
  proof -
    have "take 20 (drop (j * 2048) (replicate 5000 (CHR ''M''))) \<noteq> ''MICROSOFT*XBOX*MEDIA''"
      if "(j + 1) * 2048 \<le> 5000" for j
    proof
      assume eq: "take 20 (drop (j * 2048) (replicate 5000 (CHR ''M''))) = ''MICROSOFT*XBOX*MEDIA''"
      have "''MICROSOFT*XBOX*MEDIA'' ! 1 = take 20 (drop (j * 2048) (replicate 5000 (CHR ''M''))) ! 1"
        by (simp only: eq)
      also have "\<dots> = CHR ''M''"
        using that by simp
      finally show False by simp
    qed
    then show ?thesis
      using signature_scan [of _ "\<lparr>contents = replicate 5000 (CHR ''M''), fpos = 7\<rparr>",
          THEN conjunct2] by simp
  qed
  ultimately show ?thesis by (simp add: v1 v2)
qed


section \<open>The path buffer of the parser\<close>


lemma c_str_nul_free: "CHR 0x00 \<notin> set (c_str s)"
  by (auto simp: c_str_def dest: set_takeWhileD)

lemma c_str_id: "CHR 0x00 \<notin> set s \<Longrightarrow> c_str s = s"
  by (auto simp: c_str_def)

lemma c_str_idem [simp]: "c_str (c_str s) = c_str s"
  by (simp add: c_str_id c_str_nul_free)


lemma length_c_str_le: "length (c_str s) \<le> length s"
  by (simp add: c_str_def length_takeWhile_le)






section \<open>The traversal of a directory\<close>

lemma and_then_simps [simp]:
  "and_then None f = None"
  "and_then (Some (Inl ub)) f = Some (Inl ub)"
  "and_then (Some (Inr x)) f = f x"
  by (simp_all add: and_then_def)


lemma and_then_mono:
  assumes "and_then a f = Some r"
    and "\<And>x. a = Some x \<Longrightarrow> a' = Some x"
    and "\<And>x y. f x = Some y \<Longrightarrow> f' x = Some y"
  shows "and_then a' f' = Some r"
proof (cases a)
  case None
  with assms(1) show ?thesis by simp
next
  case (Some x)
  with assms(2) have a': "a' = Some x" by simp
  show ?thesis
  proof (cases x)
    case (Inl ub)
    with Some a' assms(1) show ?thesis by simp
  next
    case (Inr y)
    with Some a' assms(1,3) show ?thesis by simp
  qed
qed

lemma recurse_Suc:
  "xbfs_recurse_file_subtree (Suc m) nb base buf sz p st =
     (if sz \<le> p + 13 then Some (Inr st)
      else and_then (subtree_at m nb base buf sz (LE_16 buf p * 4) st)
             (\<lambda>st1. and_then (process_file m nb base buf p st1)
                (\<lambda>st2. subtree_at m nb base buf sz (LE_16 buf (p + 2) * 4) st2)))"
  unfolding subtree_at_def process_file_def
  by (rule xbfs_recurse_file_subtree.simps)

lemma recurse_directory_Suc:
  "xbfs_recurse_directory (Suc m) nb base s z st =
     (if length (fst (read (lseek (snd st) (base + int s * int SECTOR_SIZE)) z)) \<noteq> z
      then Some (Inr (fst st, snd (read (lseek (snd st) (base + int s * int SECTOR_SIZE)) z)))
      else xbfs_recurse_file_subtree m nb base
             (fst (read (lseek (snd st) (base + int s * int SECTOR_SIZE)) z)) z 0
             (fst st, snd (read (lseek (snd st) (base + int s * int SECTOR_SIZE)) z)))"
  by (simp add: case_prod_beta)

declare xbfs_recurse_file_subtree.simps(2) [simp del]
declare xbfs_recurse_directory.simps(2) [simp del]

lemma fuel_Suc:
  "(\<forall>nb base buf sz p st r. xbfs_recurse_file_subtree m nb base buf sz p st = Some r \<longrightarrow>
       xbfs_recurse_file_subtree (Suc m) nb base buf sz p st = Some r) \<and>
   (\<forall>nb base s z st r. xbfs_recurse_directory m nb base s z st = Some r \<longrightarrow>
       xbfs_recurse_directory (Suc m) nb base s z st = Some r)"
proof (induction m)
  case 0
  show ?case by simp
next
  case (Suc m)
  then have sub: "xbfs_recurse_file_subtree m nb base buf sz p st = Some r \<Longrightarrow>
       xbfs_recurse_file_subtree (Suc m) nb base buf sz p st = Some r"
    and dir: "xbfs_recurse_directory m nb base s z st = Some r \<Longrightarrow>
       xbfs_recurse_directory (Suc m) nb base s z st = Some r"
    for nb base buf sz p st r s z
    by blast+
  have sa: "subtree_at m nb base buf sz q st = Some r \<Longrightarrow>
       subtree_at (Suc m) nb base buf sz q st = Some r" for nb base buf sz q st r
    using sub [of nb base buf sz q st r] by (simp add: subtree_at_def split: if_splits)
  have pf: "process_file m nb base buf p st = Some r \<Longrightarrow>
       process_file (Suc m) nb base buf p st = Some r" for nb base buf p st r
    unfolding process_file_def
    by (cases "build_name_copy (replicate NAME_MAX_SIZE (CHR 0x00)) nb buf
             (p + 0xE) (of_char (buf ! (p + 0xD)))
             ((of_char (buf ! (p + 0xC)) :: nat) AND 0x10 \<noteq> 0)")
       (simp_all add: dir split: if_splits)
  show ?case
  proof (intro conjI allI impI)
    fix nb base buf sz p st r
    assume a: "xbfs_recurse_file_subtree (Suc m) nb base buf sz p st = Some r"
    show "xbfs_recurse_file_subtree (Suc (Suc m)) nb base buf sz p st = Some r"
    proof (cases "sz \<le> p + 13")
      case True
      with a show ?thesis by (simp add: recurse_Suc)
    next
      case False
      with a have "and_then (subtree_at m nb base buf sz (LE_16 buf p * 4) st)
             (\<lambda>st1. and_then (process_file m nb base buf p st1)
                (\<lambda>st2. subtree_at m nb base buf sz (LE_16 buf (p + 2) * 4) st2)) = Some r"
        by (simp add: recurse_Suc)
      then have "and_then (subtree_at (Suc m) nb base buf sz (LE_16 buf p * 4) st)
             (\<lambda>st1. and_then (process_file (Suc m) nb base buf p st1)
                (\<lambda>st2. subtree_at (Suc m) nb base buf sz (LE_16 buf (p + 2) * 4) st2)) = Some r"
      proof (rule and_then_mono)
        fix x assume "subtree_at m nb base buf sz (LE_16 buf p * 4) st = Some x"
        then show "subtree_at (Suc m) nb base buf sz (LE_16 buf p * 4) st = Some x" by (rule sa)
      next
        fix x y
        assume "and_then (process_file m nb base buf p x)
                (\<lambda>st2. subtree_at m nb base buf sz (LE_16 buf (p + 2) * 4) st2) = Some y"
        then show "and_then (process_file (Suc m) nb base buf p x)
                (\<lambda>st2. subtree_at (Suc m) nb base buf sz (LE_16 buf (p + 2) * 4) st2) = Some y"
          by (rule and_then_mono) (erule pf, erule sa)
      qed
      with False show ?thesis by (simp add: recurse_Suc [of "Suc m"])
    qed
  next
    fix nb base s z st r
    assume "xbfs_recurse_directory (Suc m) nb base s z st = Some r"
    then show "xbfs_recurse_directory (Suc (Suc m)) nb base s z st = Some r"
      using sub [of nb base _ z 0 _ r] by (simp add: recurse_directory_Suc split: if_splits)
  qed
qed

lemma fuel_mono_subtree:
  "m \<le> m' \<Longrightarrow> xbfs_recurse_file_subtree m nb base buf sz p st = Some r \<Longrightarrow>
     xbfs_recurse_file_subtree m' nb base buf sz p st = Some r"
proof (induction m')
  case 0
  then show ?case by simp
next
  case (Suc m')
  show ?case
  proof (cases "m = Suc m'")
    case True
    with Suc.prems show ?thesis by simp
  next
    case False
    with Suc.prems have "m \<le> m'" by simp
    from Suc.IH [OF this Suc.prems(2)] fuel_Suc [of m'] show ?thesis by blast
  qed
qed





















section \<open>The order of a directory listing\<close>











lemma is_dir_insert_all [simp]: "is_dir (insert_all t ins) = is_dir t"
  by (induction t ins rule: insert_all.induct) auto










end
